theory Spec2Isabelle
  imports Main
begin

section \<open>Time\<close>

text \<open>
  A \<open>time.Time\<close> is modelled by the instant it denotes: the number of nanoseconds since
  Go's zero time, 0001-01-01T00:00:00Z. \<open>Before\<close>, \<open>After\<close> and \<open>Add\<close> of the source
  compare and shift instants, so they are \<open><\<close>, \<open>>\<close> and \<open>+\<close> here. The location and
  the monotonic reading of a \<open>time.Time\<close> play no role in \<open>Chunkify\<close> and are left out;
  a \<open>time.Duration\<close> is a number of nanoseconds. Instants are unbounded integers: the
  range of a \<open>time.Time\<close> is far wider than the years 0000 to 9999 that a date or an
  RFC 3339 timestamp can name, so that no sum or rounding of the source overflows.
\<close>

type_synonym time = int
type_synonym duration = int

definition Second :: duration where
  "Second = 1000000000"

definition Minute :: duration where
  "Minute = 60 * Second"

definition Hour :: duration where
  "Hour = 60 * Minute"

definition startOfDay :: int where
  "startOfDay = 9"

definition endOfDay :: int where
  "endOfDay = 17"

text \<open>
  \<open>Time.Round\<close> of the Go standard library: the remainder \<open>r\<close> of the instant by \<open>d\<close> is
  taken non-negative, the result is \<open>t - r\<close> when \<open>r + r < d\<close> and \<open>t + (d - r)\<close>
  otherwise (halfway values round up); a non-positive \<open>d\<close> returns \<open>t\<close>.
\<close>

definition Round :: "time \<Rightarrow> duration \<Rightarrow> time" where
  "Round t d =
     (if d \<le> 0 then t
      else let r = t mod d in if r + r < d then t - r else t + (d - r))"

section \<open>Calendar events and chunks\<close>

text \<open>
  The structs of \<open>calendar/v3\<close> restricted to the fields \<open>Chunkify\<close> reads. A pointer
  field is an \<open>option\<close>, \<open>None\<close> being \<open>nil\<close>. The field \<open>Self\<close> of the creator is called
  \<open>CreatorSelf\<close>, since a record field is a constant of the theory.
\<close>

record EventDateTime =
  DateTime :: string

record EventCreator =
  CreatorSelf :: bool

record EventAttendee =
  Self :: bool
  ResponseStatus :: string

record Event =
  Start :: "EventDateTime option"
  End :: "EventDateTime option"
  Summary :: string
  Attendees :: "EventAttendee option list"
  Creator :: "EventCreator option"

text \<open>
  \<open>items\<close> is a slice of pointers to events and \<open>Chunkify\<close> assigns to \<open>e.Attendees\<close>
  through them, so the events live in a store: an event pointer is \<open>None\<close> (\<open>nil\<close>) or
  \<open>Some a\<close> for an address \<open>a\<close> of the store, and one address may occur several times in
  \<open>items\<close>.
\<close>

type_synonym addr = nat
type_synonym store = "addr \<Rightarrow> Event"

text \<open>
  The embedded \<open>*calendar.Event\<close> of a chunk is the field \<open>Event\<close>; the fields \<open>end\<close> and \<open>notes\<close>
  are called \<open>end'\<close> and \<open>notes'\<close>, both words being keywords of Isabelle.
\<close>

record Chunk =
  Event :: "addr option"
  start :: time
  end' :: time
  notes' :: string

datatype error = NilPointerDereference

text \<open>
  The local variables of \<open>Chunkify\<close> that change during the pass. Every chunk is allocated
  where it is appended and the slice only grows, so the pointer \<open>intersect\<close> is modelled
  by the position in \<open>chunks\<close> of the chunk it points to.
\<close>

record walk =
  lo :: time
  i :: nat
  chunks :: "Chunk list"
  intersect :: "nat option"

type_synonym parser = "string \<Rightarrow> time option"

section \<open>The functions of main.go\<close>

text \<open>
  Line 157, \<open>t, _ := time.Parse(time.RFC3339, dt.DateTime)\<close>. The parser \<open>parse\<close> stands
  for \<open>time.Parse(time.RFC3339, _)\<close> of the standard library, \<open>None\<close> being a parse
  error: the source drops the error and goes on with the zero time that \<open>time.Parse\<close>
  returns with it.
\<close>

definition parsed :: "parser \<Rightarrow> EventDateTime \<Rightarrow> time" where
  "parsed parse d = (case parse (DateTime d) of None \<Rightarrow> 0 | Some t \<Rightarrow> t)"

definition roundToNearest15 :: "parser \<Rightarrow> EventDateTime option \<Rightarrow> error + time" where
  "roundToNearest15 parse dt =
     (case dt of
        None \<Rightarrow> Inl NilPointerDereference
      | Some d \<Rightarrow> Inr (Round (parsed parse d) (15 * Minute)))"

text \<open>
  Lines 125-128 and 147-150: append a gap chunk with empty notes, then overwrite the
  notes of the chunk just appended with \<open>intersect.notes\<close> when \<open>intersect\<close> is not \<open>nil\<close>.
\<close>

definition append_gap :: "time \<Rightarrow> time \<Rightarrow> walk \<Rightarrow> walk" where
  "append_gap a b w =
     (let cs = chunks w @ [\<lparr>Event = None, start = a, end' = b, notes' = ''''\<rparr>]
      in case intersect w of
           None \<Rightarrow> w\<lparr>chunks := cs\<rparr>
         | Some k \<Rightarrow>
             w\<lparr>chunks := cs[length cs - 1 := (cs ! (length cs - 1))\<lparr>notes' := notes' (cs ! k)\<rparr>]\<rparr>)"

text \<open>
  Lines 123-141: the gap before the event, the chunk of the event at address \<open>a\<close>, the
  truncation of the chunk before it, and the new low-water mark.
\<close>

definition append_event :: "addr \<Rightarrow> time \<Rightarrow> time \<Rightarrow> string \<Rightarrow> walk \<Rightarrow> walk" where
  "append_event a s en summary w =
     (let w1 = (if s > lo w then append_gap (lo w) s w else w);
          cs = chunks w1 @ [\<lparr>Event = Some a, start = s, end' = en, notes' = summary\<rparr>];
          j = length cs - 1;
          w2 = w1\<lparr>chunks := cs, i := j\<rparr>;
          w3 = (if j > 0 \<and> s < end' (cs ! (j - 1))
                then w2\<lparr>intersect := Some (j - 1),
                        chunks := cs[j - 1 := (cs ! (j - 1))\<lparr>end' := s\<rparr>]\<rparr>
                else w2)
      in w3\<lparr>lo := end' (chunks w3 ! j)\<rparr>)"

text \<open>The body of the loop over the attendees of the event \<open>e\<close> at address \<open>a\<close> (lines 114-142).\<close>

definition attendee_body ::
  "parser \<Rightarrow> addr \<Rightarrow> Event \<Rightarrow> EventAttendee option \<Rightarrow> walk \<Rightarrow> error + walk" where
  "attendee_body parse a e attendee w =
     (case attendee of
        None \<Rightarrow> Inl NilPointerDereference
      | Some att \<Rightarrow>
          if \<not> Self att \<or> ResponseStatus att = ''declined'' then Inr w
          else
            (case roundToNearest15 parse (Start e) of
               Inl x \<Rightarrow> Inl x
             | Inr s \<Rightarrow>
                 (case roundToNearest15 parse (End e) of
                    Inl x \<Rightarrow> Inl x
                  | Inr en \<Rightarrow> Inr (append_event a s en (Summary e) w))))"

fun attendees_loop ::
  "parser \<Rightarrow> addr \<Rightarrow> Event \<Rightarrow> EventAttendee option list \<Rightarrow> walk \<Rightarrow> error + walk" where
  "attendees_loop parse a e [] w = Inr w"
| "attendees_loop parse a e (attendee # rest) w =
     (case attendee_body parse a e attendee w of
        Inl x \<Rightarrow> Inl x
      | Inr w' \<Rightarrow> attendees_loop parse a e rest w')"

text \<open>
  Lines 107-112: an event without attendees that the user created gets one attendee
  \<open>{Self: true}\<close> appended to its own \<open>Attendees\<close>. \<open>e.Creator\<close> is dereferenced only
  when the attendee list is empty.
\<close>

definition synthesize :: "Event \<Rightarrow> error + Event" where
  "synthesize e =
     (if length (Attendees e) = 0
      then (case Creator e of
              None \<Rightarrow> Inl NilPointerDereference
            | Some c \<Rightarrow>
                if CreatorSelf c
                then Inr (e\<lparr>Attendees := Attendees e @ [Some \<lparr>Self = True, ResponseStatus = ''''\<rparr>]\<rparr>)
                else Inr e)
      else Inr e)"

text \<open>The body of the loop over \<open>items\<close> (lines 101-143), on the store and the walk.\<close>

definition item_body :: "parser \<Rightarrow> addr option \<Rightarrow> store \<times> walk \<Rightarrow> error + store \<times> walk" where
  "item_body parse p hw =
     (case p of
        None \<Rightarrow> Inl NilPointerDereference
      | Some a \<Rightarrow>
          let h = fst hw; w = snd hw; e = h a in
          (case Start e of
             None \<Rightarrow> Inl NilPointerDereference
           | Some sdt \<Rightarrow>
               if DateTime sdt = '''' then Inr (h, w)
               else
                 (case End e of
                    None \<Rightarrow> Inl NilPointerDereference
                  | Some edt \<Rightarrow>
                      if DateTime edt = '''' then Inr (h, w)
                      else
                        (case synthesize e of
                           Inl x \<Rightarrow> Inl x
                         | Inr e' \<Rightarrow>
                             (case attendees_loop parse a e' (Attendees e') w of
                                Inl x \<Rightarrow> Inl x
                              | Inr w' \<Rightarrow> Inr (h(a := e'), w'))))))"

fun items_loop :: "parser \<Rightarrow> addr option list \<Rightarrow> store \<times> walk \<Rightarrow> error + store \<times> walk" where
  "items_loop parse [] hw = Inr hw"
| "items_loop parse (p # rest) hw =
     (case item_body parse p hw of
        Inl x \<Rightarrow> Inl x
      | Inr hw' \<Rightarrow> items_loop parse rest hw')"

text \<open>
  \<open>Chunkify\<close> returns the chunks and, since it writes to the events, the store it leaves;
  a nil pointer dereference is \<open>Inl\<close>.
\<close>

definition Chunkify ::
  "parser \<Rightarrow> time \<Rightarrow> addr option list \<Rightarrow> store \<Rightarrow> error + Chunk list \<times> store" where
  "Chunkify parse date items h =
     (let lo0 = date + startOfDay * Hour;
          hi = date + endOfDay * Hour
      in if length items = 0
         then Inr ([\<lparr>Event = None, start = lo0, end' = hi, notes' = ''''\<rparr>], h)
         else
           (case items_loop parse items (h, \<lparr>lo = lo0, i = 0, chunks = [], intersect = None\<rparr>) of
              Inl x \<Rightarrow> Inl x
            | Inr (h', w) \<Rightarrow>
                Inr (chunks (if lo w < hi then append_gap (lo w) hi w else w), h')))"

section \<open>Notions used in the statements and proofs\<close>

subsection \<open>Events\<close>

text \<open>
  An event is \<open>timed\<close> when the loop does not skip it as an all-day event;
  \<open>self_created\<close> reads \<open>e.Creator.Self\<close>; an attendee \<open>counts\<close> when the attendee
  loop does not skip it; an event is \<open>relevant\<close> when, after lines 107-112, one of its
  attendees counts; \<open>with_self e\<close> is \<open>e\<close> after lines 107-112 appended the attendee.
\<close>

definition timed :: "Event \<Rightarrow> bool" where
  "timed e =
     (case Start e of
        None \<Rightarrow> False
      | Some sd \<Rightarrow>
          DateTime sd \<noteq> '''' \<and> (case End e of None \<Rightarrow> False | Some ed \<Rightarrow> DateTime ed \<noteq> ''''))"

definition self_created :: "Event \<Rightarrow> bool" where
  "self_created e = (case Creator e of None \<Rightarrow> False | Some c \<Rightarrow> CreatorSelf c)"

definition counts :: "EventAttendee option \<Rightarrow> bool" where
  "counts attendee =
     (case attendee of None \<Rightarrow> False | Some att \<Rightarrow> Self att \<and> ResponseStatus att \<noteq> ''declined'')"

definition relevant :: "Event \<Rightarrow> bool" where
  "relevant e = (if Attendees e = [] then self_created e else list_ex counts (Attendees e))"

definition with_self :: "Event \<Rightarrow> Event" where
  "with_self e = e\<lparr>Attendees := [Some \<lparr>Self = True, ResponseStatus = ''''\<rparr>]\<rparr>"




text \<open>
  The start and end instants, as \<open>roundToNearest15\<close> parses them, of the events of
  \<open>items\<close> that have both, in the order of \<open>items\<close>.
\<close>

fun event_times :: "parser \<Rightarrow> store \<Rightarrow> addr option list \<Rightarrow> (time \<times> time) list" where
  "event_times parse h [] = []"
| "event_times parse h (p # ps) =
     (case p of
        None \<Rightarrow> event_times parse h ps
      | Some a \<Rightarrow>
          (case Start (h a) of
             None \<Rightarrow> event_times parse h ps
           | Some sd \<Rightarrow>
               (case End (h a) of
                  None \<Rightarrow> event_times parse h ps
                | Some ed \<Rightarrow>
                    if DateTime sd \<noteq> '''' \<and> DateTime ed \<noteq> ''''
                    then (parsed parse sd, parsed parse ed) # event_times parse h ps
                    else event_times parse h ps)))"

subsection \<open>The loop body in closed form\<close>

text \<open>
  \<open>gap_notes w\<close> are the notes that a gap chunk appended to \<open>w\<close> gets, and
  \<open>intersect_ok w\<close> says that \<open>intersect\<close> is nil or points into \<open>chunks\<close>.
  \<open>before_event s w\<close> are the chunks ahead of the chunk of an event with rounded start
  \<open>s\<close>, once lines 123-141 have run on \<open>w\<close>.
\<close>

definition gap_notes :: "walk \<Rightarrow> string" where
  "gap_notes w = (case intersect w of None \<Rightarrow> '''' | Some k \<Rightarrow> notes' (chunks w ! k))"

definition intersect_ok :: "walk \<Rightarrow> bool" where
  "intersect_ok w = (case intersect w of None \<Rightarrow> True | Some k \<Rightarrow> k < length (chunks w))"

definition before_event :: "time \<Rightarrow> walk \<Rightarrow> Chunk list" where
  "before_event s w =
     (if lo w < s
      then chunks w @ [\<lparr>Event = None, start = lo w, end' = s, notes' = gap_notes w\<rparr>]
      else if chunks w \<noteq> [] \<and> s < end' (last (chunks w))
      then butlast (chunks w) @ [(last (chunks w))\<lparr>end' := s\<rparr>]
      else chunks w)"

text \<open>
  The body of the loop over \<open>items\<close> on the event itself: the event as the body leaves
  it, and the walk.
\<close>

definition event_body :: "parser \<Rightarrow> addr \<Rightarrow> Event \<Rightarrow> walk \<Rightarrow> error + Event \<times> walk" where
  "event_body parse a e w =
     (case Start e of
        None \<Rightarrow> Inl NilPointerDereference
      | Some sd \<Rightarrow>
          if DateTime sd = '''' then Inr (e, w)
          else
            (case End e of
               None \<Rightarrow> Inl NilPointerDereference
             | Some ed \<Rightarrow>
                 if DateTime ed = '''' then Inr (e, w)
                 else
                   (case synthesize e of
                      Inl x \<Rightarrow> Inl x
                    | Inr e' \<Rightarrow>
                        (case attendees_loop parse a e' (Attendees e') w of
                           Inl x \<Rightarrow> Inl x
                         | Inr w' \<Rightarrow> Inr (e', w')))))"

subsection \<open>Invariants of the pass\<close>

definition contiguous :: "Chunk list \<Rightarrow> bool" where
  "contiguous cs = (\<forall>k. Suc k < length cs \<longrightarrow> end' (cs ! k) = start (cs ! Suc k))"

definition tail_ok :: "walk \<Rightarrow> bool" where
  "tail_ok w = (chunks w = [] \<or> end' (last (chunks w)) = lo w)"

definition pass_inv :: "walk \<Rightarrow> bool" where
  "pass_inv w = (intersect_ok w \<and> tail_ok w \<and> contiguous (chunks w))"



definition dur_inv :: "time \<Rightarrow> walk \<Rightarrow> bool" where
  "dur_inv b w =
     (intersect_ok w \<and> list_all (\<lambda>c. start c \<le> end' c) (chunks w) \<and>
      (chunks w \<noteq> [] \<longrightarrow> start (last (chunks w)) \<le> b \<and> end' (last (chunks w)) = lo w))"


definition has_chunk :: "addr \<Rightarrow> string \<Rightarrow> time \<Rightarrow> Chunk list \<Rightarrow> bool" where
  "has_chunk a n s cs = list_ex (\<lambda>c. Event c = Some a \<and> notes' c = n \<and> start c = s) cs"

text \<open>
  Two stores that differ at one address only, where a self-created event without
  attendees faces its copy with one self attendee, and two results with the same walk
  on such stores.
\<close>

definition twin :: "string \<Rightarrow> Event \<Rightarrow> Event \<Rightarrow> bool" where
  "twin rs e1 e2 =
     (Start e1 = Start e2 \<and> End e1 = End e2 \<and> Summary e1 = Summary e2 \<and>
      Attendees e2 = [Some \<lparr>Self = True, ResponseStatus = rs\<rparr>] \<and>
      (Attendees e1 = [] \<and> self_created e1 \<or>
       Attendees e1 = [Some \<lparr>Self = True, ResponseStatus = ''''\<rparr>]))"

definition sim :: "addr \<Rightarrow> string \<Rightarrow> store \<Rightarrow> store \<Rightarrow> bool" where
  "sim a rs h1 h2 = ((\<forall>b. b \<noteq> a \<longrightarrow> h1 b = h2 b) \<and> twin rs (h1 a) (h2 a))"

definition same_walk ::
  "addr \<Rightarrow> string \<Rightarrow> error + store \<times> walk \<Rightarrow> error + store \<times> walk \<Rightarrow> bool" where
  "same_walk a rs r1 r2 =
     (case r1 of
        Inl x \<Rightarrow> r2 = Inl x
      | Inr hw1 \<Rightarrow>
          (case r2 of
             Inl y \<Rightarrow> False
           | Inr hw2 \<Rightarrow> snd hw1 = snd hw2 \<and> sim a rs (fst hw1) (fst hw2)))"

subsection \<open>Inputs without nil pointers\<close>

text \<open>
  The events on which the body of the loop dereferences no nil pointer: the start is not
  nil and, unless the event is skipped as an all-day event, neither are the end, the
  attendees and, for an event without attendees, the creator.
\<close>

definition no_nil :: "Event \<Rightarrow> bool" where
  "no_nil e =
     (case Start e of
        None \<Rightarrow> False
      | Some sd \<Rightarrow>
          DateTime sd = '''' \<or>
          (case End e of
             None \<Rightarrow> False
           | Some ed \<Rightarrow>
               DateTime ed = '''' \<or>
               (if Attendees e = [] then Creator e \<noteq> None
                else list_all (\<lambda>attendee. attendee \<noteq> None) (Attendees e))))"

definition all_no_nil :: "store \<Rightarrow> addr option list \<Rightarrow> bool" where
  "all_no_nil h items = list_all (\<lambda>p. case p of None \<Rightarrow> False | Some a \<Rightarrow> no_nil (h a)) items"

section \<open>Example inputs\<close>

text \<open>
  \<open>newEvent\<close> of main_test.go, on the timestamps already formatted, and the four events
  of \<open>Test_Chunkify\<close> on the day that starts at the zero time, at the addresses 0 to 3
  of \<open>test_store\<close>. \<open>clock\<close> is \<open>time.Parse\<close> on the timestamps used below: the instant of
  \<open>0001-01-01Thh:mm:ssZ\<close> is hh hours, mm minutes and ss seconds after the zero time.
\<close>

definition newEvent :: "string \<Rightarrow> string \<Rightarrow> string \<Rightarrow> string \<Rightarrow> bool \<Rightarrow> Event" where
  "newEvent s e summary responseStatus self =
     \<lparr>Start = Some \<lparr>DateTime = s\<rparr>, End = Some \<lparr>DateTime = e\<rparr>, Summary = summary,
      Attendees = [Some \<lparr>Self = self, ResponseStatus = responseStatus\<rparr>], Creator = None\<rparr>"

definition clock :: parser where
  "clock = map_of
     [(''0001-01-01T08:00:00Z'', 8 * Hour),
      (''0001-01-01T10:00:00Z'', 10 * Hour),
      (''0001-01-01T10:07:29Z'', 10 * Hour + 7 * Minute + 29 * Second),
      (''0001-01-01T10:07:30Z'', 10 * Hour + 7 * Minute + 30 * Second),
      (''0001-01-01T11:00:00Z'', 11 * Hour),
      (''0001-01-01T12:00:00Z'', 12 * Hour),
      (''0001-01-01T13:00:00Z'', 13 * Hour),
      (''0001-01-01T14:00:00Z'', 14 * Hour),
      (''0001-01-01T16:00:00Z'', 16 * Hour),
      (''0001-01-01T17:00:00Z'', 17 * Hour),
      (''0001-01-01T18:00:00Z'', 18 * Hour)]"

definition blank :: Event where
  "blank = \<lparr>Start = None, End = None, Summary = '''', Attendees = [], Creator = None\<rparr>"

definition declinedEvent :: Event where
  "declinedEvent =
     newEvent ''0001-01-01T10:00:00Z'' ''0001-01-01T12:00:00Z'' ''declined event'' ''declined'' True"

definition acceptedEvent :: Event where
  "acceptedEvent =
     newEvent ''0001-01-01T10:00:00Z'' ''0001-01-01T12:00:00Z'' ''accepted event'' ''accepted'' True"

definition gapEvent :: Event where
  "gapEvent =
     newEvent ''0001-01-01T13:00:00Z'' ''0001-01-01T14:00:00Z'' ''gap event'' ''accepted'' True"

definition overlapEvent :: Event where
  "overlapEvent =
     newEvent ''0001-01-01T08:00:00Z'' ''0001-01-01T17:00:00Z'' ''overlapping event'' ''accepted'' True"

text \<open>
  Four more events: one that ends after 17:00, one that lists the user twice, declined
  and accepted, one that the user created without attendees, and one without attendees
  and without a creator.
\<close>

definition lateEvent :: Event where
  "lateEvent =
     newEvent ''0001-01-01T16:00:00Z'' ''0001-01-01T18:00:00Z'' ''late event'' ''accepted'' True"

definition twiceEvent :: Event where
  "twiceEvent =
     \<lparr>Start = Some \<lparr>DateTime = ''0001-01-01T10:00:00Z''\<rparr>,
      End = Some \<lparr>DateTime = ''0001-01-01T12:00:00Z''\<rparr>,
      Summary = ''twice event'',
      Attendees = [Some \<lparr>Self = True, ResponseStatus = ''declined''\<rparr>,
                   Some \<lparr>Self = True, ResponseStatus = ''accepted''\<rparr>],
      Creator = None\<rparr>"

definition ownEvent :: Event where
  "ownEvent =
     \<lparr>Start = Some \<lparr>DateTime = ''0001-01-01T10:00:00Z''\<rparr>,
      End = Some \<lparr>DateTime = ''0001-01-01T12:00:00Z''\<rparr>,
      Summary = ''own event'',
      Attendees = [],
      Creator = Some \<lparr>CreatorSelf = True\<rparr>\<rparr>"

definition orphanEvent :: Event where
  "orphanEvent =
     \<lparr>Start = Some \<lparr>DateTime = ''0001-01-01T10:00:00Z''\<rparr>,
      End = Some \<lparr>DateTime = ''0001-01-01T12:00:00Z''\<rparr>,
      Summary = ''orphan event'',
      Attendees = [],
      Creator = None\<rparr>"

definition innerEvent :: Event where
  "innerEvent =
     newEvent ''0001-01-01T11:00:00Z'' ''0001-01-01T12:00:00Z'' ''inner event'' ''accepted'' True"

definition test_store :: store where
  "test_store =
     (\<lambda>_. blank)
       (0 := declinedEvent, 1 := acceptedEvent, 2 := gapEvent, 3 := overlapEvent,
        4 := lateEvent, 5 := twiceEvent, 6 := ownEvent, 7 := orphanEvent, 8 := innerEvent)"

text \<open>The chunks of the fifth case of \<open>Test_Chunkify\<close>, "handles overlapping event".\<close>

definition overlap_chunks :: "Chunk list" where
  "overlap_chunks =
     [\<lparr>Event = Some 3, start = 8 * Hour, end' = 10 * Hour, notes' = ''overlapping event''\<rparr>,
      \<lparr>Event = Some 1, start = 10 * Hour, end' = 12 * Hour, notes' = ''accepted event''\<rparr>,
      \<lparr>Event = None, start = 12 * Hour, end' = 13 * Hour, notes' = ''overlapping event''\<rparr>,
      \<lparr>Event = Some 2, start = 13 * Hour, end' = 14 * Hour, notes' = ''gap event''\<rparr>,
      \<lparr>Event = None, start = 14 * Hour, end' = 17 * Hour, notes' = ''overlapping event''\<rparr>]"



definition own_chunks :: "Chunk list" where
  "own_chunks =
     [\<lparr>Event = None, start = 9 * Hour, end' = 10 * Hour, notes' = ''''\<rparr>,
      \<lparr>Event = Some 6, start = 10 * Hour, end' = 12 * Hour, notes' = ''own event''\<rparr>,
      \<lparr>Event = None, start = 12 * Hour, end' = 17 * Hour, notes' = ''''\<rparr>]"






section \<open>Rounding\<close>

lemma quarter_pos: "0 < 15 * Minute"
  by (simp add: Minute_def Second_def)

lemma Round_eq_div:
  assumes "0 < d"
  shows "Round t d = ((2 * t + d) div (2 * d)) * d"
proof -
  define q where "q = t div d"
  define r where "r = t mod d"
  have t: "t = q * d + r" by (simp add: q_def r_def)
  have r: "0 \<le> r" "r < d" using assms by (simp_all add: r_def)
  have R: "Round t d = (if r + r < d then t - r else t + (d - r))"
    using assms by (simp add: Round_def Let_def r_def)
  show ?thesis
  proof (cases "r + r < d")
    case True
    have e: "2 * t + d = (2 * r + d) + q * (2 * d)" by (simp add: t algebra_simps)
    have "(2 * t + d) div (2 * d) = q + (2 * r + d) div (2 * d)"
      using assms by (subst e, subst div_mult_self1) simp_all
    moreover have "(2 * r + d) div (2 * d) = 0"
      using True r by (intro div_pos_pos_trivial) simp_all
    moreover have "Round t d = t - r" using True by (simp add: R)
    moreover have "t - r = q * d" by (simp add: t)
    ultimately show ?thesis by simp
  next
    case False
    have e: "2 * t + d = (2 * r - d) + (q + 1) * (2 * d)" by (simp add: t algebra_simps)
    have "(2 * t + d) div (2 * d) = (q + 1) + (2 * r - d) div (2 * d)"
      using assms by (subst e, subst div_mult_self1) simp_all
    moreover have "(2 * r - d) div (2 * d) = 0"
      using False r by (intro div_pos_pos_trivial) simp_all
    moreover have "Round t d = t + (d - r)" using False by (simp add: R)
    moreover have "t + (d - r) = (q + 1) * d" by (simp add: t algebra_simps)
    ultimately show ?thesis by simp
  qed
qed

lemma Round_mono:
  assumes "0 < d" "t1 \<le> t2"
  shows "Round t1 d \<le> Round t2 d"
proof -
  have "(2 * t1 + d) div (2 * d) \<le> (2 * t2 + d) div (2 * d)"
    using assms by (intro zdiv_mono1) simp_all
  then show ?thesis
    using assms by (simp add: Round_eq_div mult_right_mono)
qed

lemma nine_to_five: "date + startOfDay * Hour < date + endOfDay * Hour"
  by (simp add: startOfDay_def endOfDay_def Hour_def Minute_def Second_def)

section \<open>The loop body\<close>

text \<open>
  One turn of the attendee loop appends the chunks \<open>before_event s w\<close> and the chunk of
  the event; the facts below read the fields of the walk it leaves.
\<close>

lemma append_gap_fields [simp]:
  "lo (append_gap a b w) = lo w"
  "i (append_gap a b w) = i w"
  "intersect (append_gap a b w) = intersect w"
  by (simp_all add: append_gap_def Let_def split: option.split)

lemma chunks_append_gap:
  "intersect_ok w \<Longrightarrow>
   chunks (append_gap a b w) = chunks w @ [\<lparr>Event = None, start = a, end' = b, notes' = gap_notes w\<rparr>]"
  by (auto simp add: append_gap_def intersect_ok_def gap_notes_def Let_def nth_append split: option.splits)

lemma update_last_snoc:
  "pre \<noteq> [] \<Longrightarrow> (pre @ [c])[length pre - Suc 0 := x] = butlast pre @ [x, c]"
proof -
  assume "pre \<noteq> []"
  then obtain ys y where pre: "pre = ys @ [y]" by (metis append_butlast_last_id)
  show ?thesis by (simp add: pre list_update_append)
qed

lemma nth_last_snoc:
  "pre \<noteq> [] \<Longrightarrow> (pre @ [c]) ! (length pre - Suc 0) = last pre"
  by (simp add: nth_append last_conv_nth)

lemma lo_append_event [simp]: "lo (append_event a s en n w) = en"
  by (simp add: append_event_def Let_def nth_append)

lemma chunks_append_event:
  assumes "intersect_ok w"
  shows "chunks (append_event a s en n w) =
         before_event s w @ [\<lparr>Event = Some a, start = s, end' = en, notes' = n\<rparr>]"
proof (cases "lo w < s")
  case True
  then show ?thesis
    using assms
    by (simp add: append_event_def Let_def chunks_append_gap before_event_def nth_append)
next
  case False
  then show ?thesis
    by (simp add: append_event_def Let_def before_event_def update_last_snoc nth_last_snoc
        cong: conj_cong)
qed

lemma intersect_append_event:
  assumes "intersect_ok w"
  shows "intersect (append_event a s en n w) =
         (if \<not> lo w < s \<and> chunks w \<noteq> [] \<and> s < end' (last (chunks w))
          then Some (length (chunks w) - 1) else intersect w)"
proof (cases "lo w < s")
  case True
  then show ?thesis
    using assms
    by (simp add: append_event_def Let_def chunks_append_gap nth_append)
next
  case False
  then show ?thesis
    by (simp add: append_event_def Let_def nth_last_snoc cong: conj_cong)
qed

lemma length_before_event: "length (before_event s w) = length (chunks w) + (if lo w < s then 1 else 0)"
  by (simp add: before_event_def)


lemma intersect_ok_append_event:
  "intersect_ok w \<Longrightarrow> intersect_ok (append_event a s en n w)"
  by (auto simp add: intersect_ok_def intersect_append_event chunks_append_event length_before_event
      split: option.splits if_splits)

lemma map_butlast_last:
  "cs \<noteq> [] \<Longrightarrow> map f (butlast cs) @ [f (last cs)] = map f cs"
  by (induction cs) auto

lemma map_before_event:
  assumes "\<And>c. f (c\<lparr>end' := s\<rparr>) = f c"
  shows "map f (before_event s w) =
         map f (chunks w) @
         (if lo w < s then [f \<lparr>Event = None, start = lo w, end' = s, notes' = gap_notes w\<rparr>] else [])"
  using assms by (simp add: before_event_def map_butlast_last)






section \<open>The loops\<close>

text \<open>
  Case analysis of the two loop bodies, and the rules that carry an invariant of
  \<open>append_event\<close> through the loops.
\<close>

lemma attendee_body_cases:
  assumes "attendee_body parse a e att w = Inr w'"
  obtains (skip) at where "att = Some at" "\<not> Self at \<or> ResponseStatus at = ''declined''" "w' = w"
  | (emit) at s en where "att = Some at" "Self at" "ResponseStatus at \<noteq> ''declined''"
      "roundToNearest15 parse (Start e) = Inr s"
      "roundToNearest15 parse (End e) = Inr en"
      "w' = append_event a s en (Summary e) w"
  using assms
  by (auto simp add: attendee_body_def split: option.splits if_splits sum.splits)

lemma attendees_loop_preserves:
  assumes step: "\<And>s en w. roundToNearest15 parse (Start e) = Inr s \<Longrightarrow>
                   roundToNearest15 parse (End e) = Inr en \<Longrightarrow> P w \<Longrightarrow>
                   P (append_event a s en (Summary e) w)"
    and "P w" and "attendees_loop parse a e atts w = Inr w'"
  shows "P w'"
  using assms(2,3)
proof (induction atts arbitrary: w)
  case Nil
  then show ?case by simp
next
  case (Cons att atts)
  from Cons.prems(2) obtain w1 where
    b: "attendee_body parse a e att w = Inr w1" and l: "attendees_loop parse a e atts w1 = Inr w'"
    by (auto split: sum.splits)
  from b Cons.prems(1) have "P w1"
    by (cases rule: attendee_body_cases) (auto intro: step)
  with l show ?case by (rule Cons.IH[rotated])
qed



lemma item_body_cases:
  assumes "item_body parse p (h, w) = Inr (h', w')"
  obtains (skip) a sd where "p = Some a" "Start (h a) = Some sd" "h' = h" "w' = w"
      "DateTime sd = [] \<or> (\<exists>ed. End (h a) = Some ed \<and> DateTime ed = [])"
  | (run) a sd ed e' where "p = Some a" "Start (h a) = Some sd" "DateTime sd \<noteq> []"
      "End (h a) = Some ed" "DateTime ed \<noteq> []"
      "synthesize (h a) = Inr e'" "h' = h(a := e')"
      "attendees_loop parse a e' (Attendees e') w = Inr w'"
proof -
  from assms obtain a where p: "p = Some a"
    by (cases p) (simp_all add: item_body_def)
  from assms p obtain sd where sd: "Start (h a) = Some sd"
    by (cases "Start (h a)") (simp_all add: item_body_def Let_def)
  show thesis
  proof (cases "DateTime sd = []")
    case True
    with assms p sd have "h' = h" "w' = w" by (simp_all add: item_body_def Let_def)
    with p sd True show thesis by (intro skip[of a sd]) simp_all
  next
    case s: False
    with assms p sd obtain ed where ed: "End (h a) = Some ed"
      by (cases "End (h a)") (simp_all add: item_body_def Let_def)
    show thesis
    proof (cases "DateTime ed = []")
      case True
      with assms p sd s ed have "h' = h" "w' = w" by (simp_all add: item_body_def Let_def)
      with p sd ed True show thesis by (intro skip[of a sd]) simp_all
    next
      case e: False
      with assms p sd s ed obtain e1 where e1: "synthesize (h a) = Inr e1"
        by (cases "synthesize (h a)") (simp_all add: item_body_def Let_def)
      with assms p sd s ed e obtain w1 where "attendees_loop parse a e1 (Attendees e1) w = Inr w1"
        by (cases "attendees_loop parse a e1 (Attendees e1) w") (simp_all add: item_body_def Let_def)
      with assms p sd s ed e e1 show thesis
        by (intro run[of a sd ed e1]) (simp_all add: item_body_def Let_def)
    qed
  qed
qed

lemma items_loop_preserves:
  assumes step: "\<And>a s en n w. P w \<Longrightarrow> P (append_event a s en n w)"
    and "P w" and "items_loop parse items (h, w) = Inr (h', w')"
  shows "P w'"
  using assms(2,3)
proof (induction items arbitrary: h w)
  case Nil
  then show ?case by simp
next
  case (Cons p items)
  from Cons.prems(2) obtain h1 w1 where
    b: "item_body parse p (h, w) = Inr (h1, w1)" and l: "items_loop parse items (h1, w1) = Inr (h', w')"
    by (auto split: sum.splits)
  from b have "P w1"
  proof (cases rule: item_body_cases)
    case skip
    then show ?thesis using Cons.prems(1) by simp
  next
    case (run a sd ed e')
    show ?thesis
      by (rule attendees_loop_preserves[where P = P, OF _ Cons.prems(1) run(8)]) (rule step)
  qed
  with l show ?case by (rule Cons.IH[rotated])
qed

lemma items_loop_append:
  "items_loop parse (xs @ ys) hw =
     (case items_loop parse xs hw of Inl x \<Rightarrow> Inl x | Inr hw' \<Rightarrow> items_loop parse ys hw')"
  by (induction xs arbitrary: hw) (simp_all split: sum.splits)

lemma item_body_event:
  "item_body parse (Some b) (h, w) =
     (case event_body parse b (h b) w of
        Inl x \<Rightarrow> Inl x
      | Inr ew \<Rightarrow> Inr (h(b := fst ew), snd ew))"
  by (simp add: item_body_def event_body_def Let_def split: option.splits sum.splits)

section \<open>The store\<close>

text \<open>
  What the pass writes to the events: only lines 107-112 do, and they keep the start,
  the end and the summary.
\<close>

lemma synthesize_Inr:
  assumes "synthesize e = Inr e'"
  shows "e' = (if Attendees e = [] \<and> self_created e then with_self e else e)"
  using assms
  by (auto simp add: synthesize_def self_created_def with_self_def split: if_splits option.splits)

lemma with_self_fields [simp]:
  "Start (with_self e) = Start e" "End (with_self e) = End e"
  "Summary (with_self e) = Summary e" "Creator (with_self e) = Creator e"
  "Attendees (with_self e) = [Some \<lparr>Self = True, ResponseStatus = ''''\<rparr>]"
  by (simp_all add: with_self_def)

lemma with_self_props [simp]:
  "timed (with_self e) = timed e" "relevant (with_self e)"
  by (simp_all add: timed_def relevant_def counts_def split: option.splits)

lemma synthesize_same:
  assumes "synthesize e = Inr e'"
  shows "Start e' = Start e" "End e' = End e" "Summary e' = Summary e" "Creator e' = Creator e"
    "timed e' = timed e" "relevant e' = relevant e"
    "relevant e' = list_ex counts (Attendees e')"
  using synthesize_Inr[OF assms]
  by (auto simp add: relevant_def counts_def split: if_splits)

lemma item_body_store:
  assumes "item_body parse p (h, w) = Inr (h', w')"
  shows "h' b = h b \<or> (p = Some b \<and> timed (h b) \<and> Attendees (h b) = [] \<and> self_created (h b) \<and>
           h' b = with_self (h b))"
  using assms
proof (cases rule: item_body_cases)
  case (skip a sd)
  then show ?thesis by simp
next
  case (run a sd ed e')
  from run(2-5) have "timed (h a)" by (simp add: timed_def)
  with run(1,7) synthesize_Inr[OF run(6)] show ?thesis by (auto split: if_splits)
qed

lemma item_body_store_head:
  assumes "item_body parse (Some a) (h, w) = Inr (h', w')"
    "timed (h a)" "Attendees (h a) = []" "self_created (h a)"
  shows "h' a = with_self (h a)"
  using assms(1)
proof (cases rule: item_body_cases)
  case (skip a' sd)
  with assms(2) show ?thesis by (auto simp add: timed_def)
next
  case (run a' sd ed e')
  with assms(3,4) synthesize_Inr[OF run(6)] show ?thesis by auto
qed

lemma item_body_same:
  assumes "item_body parse p (h, w) = Inr (h', w')"
  shows "Start (h' b) = Start (h b)" "End (h' b) = End (h b)" "Summary (h' b) = Summary (h b)"
    "timed (h' b) = timed (h b)" "relevant (h' b) = relevant (h b)"
  using item_body_store[OF assms, of b]
  by (auto simp add: relevant_def[of "h b"])


lemma items_loop_store:
  assumes "items_loop parse items (h, w) = Inr (h', w')"
  shows "h' a = (if Some a \<in> set items \<and> timed (h a) \<and> Attendees (h a) = [] \<and> self_created (h a)
                 then with_self (h a) else h a)"
  using assms
proof (induction items arbitrary: h w)
  case Nil
  then show ?case by simp
next
  case (Cons p items)
  from Cons.prems(1) obtain h1 w1 where
    b: "item_body parse p (h, w) = Inr (h1, w1)" and l: "items_loop parse items (h1, w1) = Inr (h', w')"
    by (auto split: sum.splits)
  note ih = Cons.IH[OF l]
  from item_body_store[OF b, of a] show ?case
  proof
    assume same: "h1 a = h a"
    show ?thesis
    proof (cases "p = Some a \<and> timed (h a) \<and> Attendees (h a) = [] \<and> self_created (h a)")
      case True
      with b have "h1 a = with_self (h a)" by (auto intro: item_body_store_head)
      with same True show ?thesis using ih by simp
    next
      case False
      then show ?thesis using ih same by auto
    qed
  next
    assume "p = Some a \<and> timed (h a) \<and> Attendees (h a) = [] \<and> self_created (h a) \<and>
           h1 a = with_self (h a)"
    then show ?thesis using ih by simp
  qed
qed

lemma event_times_same:
  assumes "\<And>a. Start (h1 a) = Start (h a)" "\<And>a. End (h1 a) = End (h a)"
  shows "event_times parse h1 items = event_times parse h items"
  by (induction items) (simp_all add: assms split: option.splits)

section \<open>Invariants of the pass\<close>

lemma contiguous_snoc:
  "contiguous (cs @ [c]) = (contiguous cs \<and> (cs = [] \<or> end' (last cs) = start c))"
proof (cases "cs = []")
  case True
  then show ?thesis by (simp add: contiguous_def)
next
  case False
  have "contiguous (cs @ [c]) =
        ((\<forall>k. Suc k < length cs \<longrightarrow> end' (cs ! k) = start (cs ! Suc k)) \<and>
         end' (cs ! (length cs - 1)) = start c)"
    unfolding contiguous_def
  proof (intro iffI conjI allI impI)
    fix k assume a: "\<forall>k. Suc k < length (cs @ [c]) \<longrightarrow> end' ((cs @ [c]) ! k) = start ((cs @ [c]) ! Suc k)"
      and k: "Suc k < length cs"
    from a k have "end' ((cs @ [c]) ! k) = start ((cs @ [c]) ! Suc k)" by simp
    with k show "end' (cs ! k) = start (cs ! Suc k)" by (simp add: nth_append)
  next
    assume a: "\<forall>k. Suc k < length (cs @ [c]) \<longrightarrow> end' ((cs @ [c]) ! k) = start ((cs @ [c]) ! Suc k)"
    from False obtain m where m: "length cs = Suc m" by (cases cs) auto
    from a m have "end' ((cs @ [c]) ! m) = start ((cs @ [c]) ! Suc m)" by simp
    with m show "end' (cs ! (length cs - 1)) = start c" by (simp add: nth_append)
  next
    fix k assume a: "(\<forall>k. Suc k < length cs \<longrightarrow> end' (cs ! k) = start (cs ! Suc k)) \<and>
         end' (cs ! (length cs - 1)) = start c" and k: "Suc k < length (cs @ [c])"
    show "end' ((cs @ [c]) ! k) = start ((cs @ [c]) ! Suc k)"
    proof (cases "Suc k < length cs")
      case True
      with a show ?thesis by (simp add: nth_append)
    next
      case False
      with k have sk: "Suc k = length cs" by simp
      then have "(cs @ [c]) ! k = cs ! (length cs - 1)"
        by (metis diff_Suc_1 lessI nth_append)
      moreover have "(cs @ [c]) ! Suc k = c" using sk by simp
      ultimately show ?thesis using a by simp
    qed
  qed
  with False show ?thesis by (simp add: contiguous_def last_conv_nth)
qed

lemma contiguous_before_event:
  assumes "intersect_ok w" "tail_ok w" "contiguous (chunks w)"
  shows "contiguous (before_event s w) \<and>
         (before_event s w = [] \<or> end' (last (before_event s w)) = s)"
proof (cases "lo w < s")
  case True
  then show ?thesis using assms
    by (auto simp add: before_event_def contiguous_snoc tail_ok_def)
next
  case nogap: False
  show ?thesis
  proof (cases "chunks w \<noteq> [] \<and> s < end' (last (chunks w))")
    case True
    then have "contiguous (butlast (chunks w)) \<and>
        (butlast (chunks w) = [] \<or> end' (last (butlast (chunks w))) = start (last (chunks w)))"
      using assms(3) contiguous_snoc[of "butlast (chunks w)" "last (chunks w)"] by simp
    then show ?thesis using True nogap
      by (simp add: before_event_def contiguous_snoc)
  next
    case False
    then show ?thesis using nogap assms
      by (auto simp add: before_event_def tail_ok_def)
  qed
qed

lemma pass_inv_append_event:
  assumes "pass_inv w"
  shows "pass_inv (append_event a s en n w)"
proof -
  from assms have ok: "intersect_ok w" "tail_ok w" "contiguous (chunks w)"
    by (simp_all add: pass_inv_def)
  from contiguous_before_event[OF ok] show ?thesis
    using ok(1)
    by (simp add: pass_inv_def intersect_ok_append_event chunks_append_event tail_ok_def
        contiguous_snoc)
qed

lemma pass_inv_init: "pass_inv \<lparr>lo = l, i = 0, chunks = [], intersect = None\<rparr>"
  by (simp add: pass_inv_def intersect_ok_def tail_ok_def contiguous_def)

lemma items_loop_pass_inv:
  "pass_inv w \<Longrightarrow> items_loop parse items (h, w) = Inr (h', w') \<Longrightarrow> pass_inv w'"
  by (rule items_loop_preserves[where P = pass_inv]) (auto intro: pass_inv_append_event)


lemma Chunkify_cases:
  assumes "Chunkify parse date items h = Inr (cs, h')"
  obtains (empty) "items = []" "h' = h"
      "cs = [\<lparr>Event = None, start = date + startOfDay * Hour, end' = date + endOfDay * Hour, notes' = []\<rparr>]"
  | (pass) w where "items \<noteq> []"
      "items_loop parse items (h, \<lparr>lo = date + startOfDay * Hour, i = 0, chunks = [], intersect = None\<rparr>) = Inr (h', w)"
      "cs = (if lo w < date + endOfDay * Hour
             then chunks w @ [\<lparr>Event = None, start = lo w, end' = date + endOfDay * Hour, notes' = gap_notes w\<rparr>]
             else chunks w)"
      "pass_inv w"
proof (cases "items = []")
  case True
  with assms show ?thesis by (intro empty) (auto simp add: Chunkify_def Let_def)
next
  case False
  with assms obtain w where
    l: "items_loop parse items (h, \<lparr>lo = date + startOfDay * Hour, i = 0, chunks = [], intersect = None\<rparr>) = Inr (h', w)"
    and c: "cs = chunks (if lo w < date + endOfDay * Hour then append_gap (lo w) (date + endOfDay * Hour) w else w)"
    by (auto simp add: Chunkify_def Let_def split: sum.splits prod.splits)
  have inv: "pass_inv w" using pass_inv_init l by (rule items_loop_pass_inv)
  then have "intersect_ok w" by (simp add: pass_inv_def)
  with c have "cs = (if lo w < date + endOfDay * Hour
             then chunks w @ [\<lparr>Event = None, start = lo w, end' = date + endOfDay * Hour, notes' = gap_notes w\<rparr>]
             else chunks w)"
    by (simp add: chunks_append_gap)
  with False l inv show ?thesis by (intro pass)
qed

lemma Chunkify_store_eq:
  assumes "Chunkify parse date items h = Inr (cs, h')"
  shows "h' a = (if Some a \<in> set items \<and> timed (h a) \<and> Attendees (h a) = [] \<and> self_created (h a)
                 then with_self (h a) else h a)"
  using assms
proof (cases rule: Chunkify_cases)
  case empty
  then show ?thesis by simp
next
  case (pass w)
  from pass(2) show ?thesis by (rule items_loop_store)
qed



lemma dur_inv_mono: "dur_inv b w \<Longrightarrow> b \<le> b' \<Longrightarrow> dur_inv b' w"
  by (auto simp add: dur_inv_def)

lemma list_all_butlast: "list_all P cs \<Longrightarrow> list_all P (butlast cs)"
  by (auto simp add: list_all_iff dest: in_set_butlastD)

lemma dur_inv_append_event:
  assumes "dur_inv b w" "b \<le> s" "s \<le> en"
  shows "dur_inv s (append_event a s en n w)"
proof -
  from assms(1) have ok: "intersect_ok w"
    and all: "list_all (\<lambda>c. start c \<le> end' c) (chunks w)"
    and lst: "chunks w \<noteq> [] \<Longrightarrow> start (last (chunks w)) \<le> b"
    by (simp_all add: dur_inv_def)
  define trunc where "trunc \<longleftrightarrow> chunks w \<noteq> [] \<and> s < end' (last (chunks w))"
  have be: "before_event s w =
      (if lo w < s
       then chunks w @ [\<lparr>Event = None, start = lo w, end' = s, notes' = gap_notes w\<rparr>]
       else if trunc then butlast (chunks w) @ [(last (chunks w))\<lparr>end' := s\<rparr>]
       else chunks w)"
    by (simp add: before_event_def trunc_def)
  have "list_all (\<lambda>c. start c \<le> end' c) (before_event s w)"
  proof (cases "lo w < s")
    case True
    with all show ?thesis by (simp add: be)
  next
    case nogap: False
    show ?thesis
    proof (cases trunc)
      case True
      with lst assms(2) have "start (last (chunks w)) \<le> s" by (simp add: trunc_def)
      with True nogap all show ?thesis
        by (simp add: be list_all_butlast)
    next
      case False
      with nogap all show ?thesis by (simp add: be)
    qed
  qed
  with ok assms(3) show ?thesis
    by (simp add: dur_inv_def chunks_append_event intersect_ok_append_event)
qed

lemma items_loop_durations:
  assumes "items_loop parse items (h, w) = Inr (h', w')"
    and "sorted (map fst (event_times parse h items))"
    and "list_all (\<lambda>(s, e). s \<le> e) (event_times parse h items)"
    and "dur_inv (Round B (15 * Minute)) w"
    and "\<forall>t \<in> set (map fst (event_times parse h items)). B \<le> t"
  shows "\<exists>b. dur_inv b w'"
  using assms
proof (induction items arbitrary: h w B)
  case Nil
  then show ?case by auto
next
  case (Cons p items)
  from Cons.prems(1) obtain h1 w1 where
    b: "item_body parse p (h, w) = Inr (h1, w1)" and l: "items_loop parse items (h1, w1) = Inr (h', w')"
    by (auto split: sum.splits)
  have same: "event_times parse h1 items = event_times parse h items"
    using item_body_same(1,2)[OF b] by (intro event_times_same) simp_all
  from b show ?case
  proof (cases rule: item_body_cases)
    case (skip a sd)
    then have "event_times parse h (p # items) = event_times parse h items"
      by (auto split: option.splits)
    with Cons.prems skip l show ?thesis
      by (intro Cons.IH[of h w B]) simp_all
  next
    case (run a sd ed e')
    let ?S = "parsed parse sd" and ?E = "parsed parse ed"
    let ?s = "Round ?S (15 * Minute)" and ?en = "Round ?E (15 * Minute)"
    from run have et: "event_times parse h (p # items) = (?S, ?E) # event_times parse h items"
      by simp
    with Cons.prems have BS: "B \<le> ?S" and SE: "?S \<le> ?E"
      and srt: "sorted (map fst (event_times parse h items))"
      and later: "\<forall>t \<in> set (map fst (event_times parse h items)). ?S \<le> t"
      and all: "list_all (\<lambda>(s, e). s \<le> e) (event_times parse h items)"
      by simp_all
    note syn = synthesize_same[OF run(6)]
    have rs: "roundToNearest15 parse (Start e') = Inr ?s" "roundToNearest15 parse (End e') = Inr ?en"
      using run(2,4) syn by (simp_all add: roundToNearest15_def)
    have "?s \<le> ?en" using SE by (intro Round_mono quarter_pos)
    moreover have "dur_inv ?s w"
      using Cons.prems(4) BS by (auto intro: dur_inv_mono Round_mono quarter_pos)
    ultimately have "dur_inv ?s w1"
      using run(8) rs
      by (intro attendees_loop_preserves[where P = "dur_inv ?s", OF _ _ run(8)])
         (auto intro: dur_inv_append_event)
    with l srt all later same show ?thesis
      by (intro Cons.IH[of h1 w1 ?S]) simp_all
  qed
qed


lemma has_chunk_before_event:
  assumes "has_chunk a n s (chunks w)"
  shows "has_chunk a n s (before_event s' w)"
proof -
  let ?f = "\<lambda>c. (Event c, notes' c, start c)"
  have "set (map ?f (chunks w)) \<subseteq> set (map ?f (before_event s' w))"
    by (simp add: map_before_event)
  moreover from assms have "(Some a, n, s) \<in> set (map ?f (chunks w))"
    by (force simp add: has_chunk_def list_ex_iff)
  ultimately have "(Some a, n, s) \<in> set (map ?f (before_event s' w))" by blast
  then show ?thesis by (auto simp add: has_chunk_def list_ex_iff)
qed

lemma has_chunk_append_event:
  assumes "intersect_ok w \<and> has_chunk a n s (chunks w)"
  shows "intersect_ok (append_event b s' en' n' w) \<and>
         has_chunk a n s (chunks (append_event b s' en' n' w))"
  using assms has_chunk_before_event[of a n s w s']
  by (simp add: chunks_append_event intersect_ok_append_event has_chunk_def)

lemma item_body_includes:
  assumes "item_body parse (Some a) (h, w) = Inr (h', w')"
    and "timed (h a)" "relevant (h a)" "Attendees (h a) = [] \<or> Attendees (h a) = [Some att]"
    and "intersect_ok w"
    and "roundToNearest15 parse (Start (h a)) = Inr s"
  shows "intersect_ok w' \<and> has_chunk a (Summary (h a)) s (chunks w')"
  using assms(1)
proof (cases rule: item_body_cases)
  case (skip a' sd)
  with assms(2) show ?thesis by (auto simp add: timed_def)
next
  case (run a' sd ed e')
  note syn = synthesize_same[OF run(6)]
  from synthesize_Inr[OF run(6)] assms(3,4) run(1)
  obtain att' where att: "Attendees e' = [Some att']" "counts (Some att')"
    by (auto simp add: relevant_def counts_def split: if_splits)
  from run(8) att obtain en where
    "w' = append_event a s en (Summary e') w"
    using assms(6) syn run(1)
    by (auto simp add: attendee_body_def counts_def split: sum.splits if_splits)
  with assms(5) syn run(1) show ?thesis
    by (simp add: chunks_append_event intersect_ok_append_event has_chunk_def)
qed

section \<open>Filtered events\<close>



section \<open>An event and its copy with one self attendee\<close>

lemma event_body_twin:
  assumes "twin rs e1 e2" "rs \<noteq> ''declined''"
  shows "case event_body parse a e1 w of
           Inl x \<Rightarrow> event_body parse a e2 w = Inl x
         | Inr ew1 \<Rightarrow>
             (\<exists>e2'. event_body parse a e2 w = Inr (e2', snd ew1) \<and> twin rs (fst ew1) e2')"
proof -
  from assms(1) have f: "Start e1 = Start e2" "End e1 = End e2" "Summary e1 = Summary e2"
    and a2: "Attendees e2 = [Some \<lparr>Self = True, ResponseStatus = rs\<rparr>]"
    and a1: "Attendees e1 = [] \<and> self_created e1 \<or>
             Attendees e1 = [Some \<lparr>Self = True, ResponseStatus = ''''\<rparr>]"
    by (simp_all add: twin_def)
  obtain e1' where s1: "synthesize e1 = Inr e1'"
    and e1': "Attendees e1' = [Some \<lparr>Self = True, ResponseStatus = ''''\<rparr>]"
      "Start e1' = Start e1" "End e1' = End e1" "Summary e1' = Summary e1"
    using a1 by (auto simp add: synthesize_def self_created_def split: option.splits)
  have s2: "synthesize e2 = Inr e2" using a2 by (simp add: synthesize_def)
  have t: "twin rs e1' e2" using e1' f a2 by (simp add: twin_def)
  have l: "attendees_loop parse a e1' (Attendees e1') w = attendees_loop parse a e2 (Attendees e2) w"
    using e1' f a2 assms(2) by (simp add: attendee_body_def split: sum.splits)
  show ?thesis
  proof (cases "Start e2")
    case None
    with f show ?thesis by (simp add: event_body_def)
  next
    case (Some sd)
    show ?thesis
    proof (cases "DateTime sd = []")
      case True
      with Some f assms(1) show ?thesis by (simp add: event_body_def)
    next
      case s: False
      show ?thesis
      proof (cases "End e2")
        case None
        with Some s f show ?thesis by (simp add: event_body_def)
      next
        case ed: (Some ed)
        show ?thesis
        proof (cases "DateTime ed = []")
          case True
          with Some s ed f assms(1) show ?thesis by (simp add: event_body_def)
        next
          case False
          with Some s ed f s1 s2 l t show ?thesis
            by (simp add: event_body_def split: sum.splits)
        qed
      qed
    qed
  qed
qed

lemma item_body_sim:
  assumes "sim a rs h1 h2" "rs \<noteq> ''declined''"
  shows "same_walk a rs (item_body parse p (h1, w)) (item_body parse p (h2, w))"
proof (cases p)
  case None
  then show ?thesis by (simp add: item_body_def same_walk_def)
next
  case (Some b)
  show ?thesis
  proof (cases "b = a")
    case True
    from assms(1) have "twin rs (h1 a) (h2 a)" by (simp add: sim_def)
    from event_body_twin[OF this assms(2), of parse a w] assms(1)
    show ?thesis
      by (auto simp add: Some True item_body_event same_walk_def sim_def split: sum.splits)
  next
    case False
    with assms(1) have "h1 b = h2 b" by (simp add: sim_def)
    with False assms(1) show ?thesis
      by (auto simp add: Some item_body_event same_walk_def sim_def split: sum.splits)
  qed
qed

lemma items_loop_sim:
  assumes "sim a rs h1 h2" "rs \<noteq> ''declined''"
  shows "same_walk a rs (items_loop parse items (h1, w)) (items_loop parse items (h2, w))"
  using assms(1)
proof (induction items arbitrary: h1 h2 w)
  case Nil
  then show ?case by (simp add: same_walk_def)
next
  case (Cons p items)
  from item_body_sim[OF Cons.prems assms(2), of parse p w]
  show ?case
  proof (cases "item_body parse p (h1, w)")
    case (Inl x)
    with \<open>same_walk a rs (item_body parse p (h1, w)) (item_body parse p (h2, w))\<close>
    show ?thesis by (simp add: same_walk_def)
  next
    case (Inr hw1)
    with \<open>same_walk a rs (item_body parse p (h1, w)) (item_body parse p (h2, w))\<close>
    obtain hw2 where r2: "item_body parse p (h2, w) = Inr hw2"
      and w: "snd hw1 = snd hw2" and s: "sim a rs (fst hw1) (fst hw2)"
      by (auto simp add: same_walk_def split: sum.splits)
    from Cons.IH[OF s, of "snd hw1"] Inr r2 w show ?thesis
      by (cases hw1; cases hw2) simp
  qed
qed

lemma Chunkify_sim:
  assumes "sim a rs h1 h2" "rs \<noteq> ''declined''"
  shows "map_sum id fst (Chunkify parse date items h1) = map_sum id fst (Chunkify parse date items h2)"
proof (cases "items = []")
  case True
  then show ?thesis by (simp add: Chunkify_def Let_def)
next
  case False
  let ?w0 = "\<lparr>lo = date + startOfDay * Hour, i = 0, chunks = [], intersect = None\<rparr>"
  from items_loop_sim[OF assms, of parse items ?w0] False show ?thesis
    by (auto simp add: Chunkify_def Let_def same_walk_def split: sum.splits)
qed

section \<open>Runs on the example inputs\<close>

lemma ran:
  assumes "map_sum id fst r = Inr cs"
  obtains h' where "r = Inr (cs, h')"
  using assms by (cases r) auto


lemma test_store_at:
  "test_store 0 = declinedEvent" "test_store 1 = acceptedEvent" "test_store 2 = gapEvent"
  "test_store 3 = overlapEvent" "test_store 4 = lateEvent" "test_store 5 = twiceEvent"
  "test_store 6 = ownEvent" "test_store 7 = orphanEvent" "test_store 8 = innerEvent"
  by (simp_all add: test_store_def)

lemma overlap_chunks_run:
  "map_sum id fst (Chunkify clock 0 [Some 3, Some 1, Some 2] test_store) = Inr overlap_chunks"
  by code_simp




lemma own_run_chunks:
  "map_sum id fst (Chunkify clock 0 [Some 6] test_store) = Inr own_chunks"
  by code_simp






lemma self_created_test_store: "self_created (test_store a) \<Longrightarrow> a = 6"
  by (simp add: test_store_def self_created_def blank_def newEvent_def declinedEvent_def
      acceptedEvent_def gapEvent_def overlapEvent_def lateEvent_def twiceEvent_def
      orphanEvent_def innerEvent_def split: if_splits)





lemma Chunkify_test_store_kept:
  assumes "map_sum id fst (Chunkify clock date items test_store) = Inr cs" "Some 6 \<notin> set items"
  shows "Chunkify clock date items test_store = Inr (cs, test_store)"
proof -
  from assms(1) obtain h' where r: "Chunkify clock date items test_store = Inr (cs, h')"
    by (rule ran)
  have "h' a = test_store a" for a
    using Chunkify_store_eq[OF r, of a] assms(2)
    by (auto dest: self_created_test_store split: if_splits)
  then have "h' = test_store" by (rule ext)
  with r show ?thesis by simp
qed

lemma overlap_run:
  "Chunkify clock 0 [Some 3, Some 1, Some 2] test_store = Inr (overlap_chunks, test_store)"
  using overlap_chunks_run by (rule Chunkify_test_store_kept) simp




section \<open>Inputs on which the pass does not panic\<close>

lemma attendees_loop_returns:
  assumes "roundToNearest15 parse (Start e) = Inr s" "roundToNearest15 parse (End e) = Inr en"
    and "list_all (\<lambda>attendee. attendee \<noteq> None) atts"
  shows "\<exists>w'. attendees_loop parse a e atts w = Inr w'"
  using assms(3)
proof (induction atts arbitrary: w)
  case Nil
  then show ?case by simp
next
  case (Cons att atts)
  from Cons.prems obtain x where "att = Some x" by auto
  then have "\<exists>w1. attendee_body parse a e att w = Inr w1"
    using assms(1,2) by (simp add: attendee_body_def)
  then obtain w1 where "attendee_body parse a e att w = Inr w1" ..
  with Cons.IH[of w1] Cons.prems show ?case by simp
qed

lemma no_nil_with_self: "no_nil e \<Longrightarrow> no_nil (with_self e)"
  by (auto simp add: no_nil_def split: option.splits)

lemma event_body_returns:
  assumes "no_nil e"
  shows "\<exists>e' w'. event_body parse a e w = Inr (e', w') \<and> (e' = e \<or> e' = with_self e)"
proof -
  from assms obtain sd where sd: "Start e = Some sd"
    by (cases "Start e") (simp_all add: no_nil_def)
  show ?thesis
  proof (cases "DateTime sd = []")
    case True
    with sd show ?thesis by (simp add: event_body_def)
  next
    case s: False
    with assms sd obtain ed where ed: "End e = Some ed"
      by (cases "End e") (simp_all add: no_nil_def)
    show ?thesis
    proof (cases "DateTime ed = []")
      case True
      with sd ed show ?thesis by (simp add: event_body_def)
    next
      case en: False
      from assms sd s ed en have "\<exists>e'. synthesize e = Inr e'"
        by (cases "Creator e"; cases "Attendees e = []") (simp_all add: no_nil_def synthesize_def)
      then obtain e' where syn: "synthesize e = Inr e'" ..
      note same = synthesize_same[OF syn]
      from synthesize_Inr[OF syn] have e': "e' = e \<or> e' = with_self e" by (simp split: if_splits)
      from synthesize_Inr[OF syn] assms sd s ed en
      have "list_all (\<lambda>attendee. attendee \<noteq> None) (Attendees e')"
        by (auto simp add: no_nil_def split: if_splits)
      moreover have "roundToNearest15 parse (Start e') = Inr (Round (parsed parse sd) (15 * Minute))"
        "roundToNearest15 parse (End e') = Inr (Round (parsed parse ed) (15 * Minute))"
        using same sd ed by (simp_all add: roundToNearest15_def)
      ultimately obtain w' where "attendees_loop parse a e' (Attendees e') w = Inr w'"
        using attendees_loop_returns by blast
      with sd s ed en syn e' show ?thesis by (simp add: event_body_def)
    qed
  qed
qed

lemma items_loop_returns:
  assumes "all_no_nil h items"
  shows "\<exists>h' w'. items_loop parse items (h, w) = Inr (h', w')"
  using assms
proof (induction items arbitrary: h w)
  case Nil
  then show ?case by simp
next
  case (Cons p items)
  from Cons.prems obtain a where p: "p = Some a" and a: "no_nil (h a)"
    and rest: "all_no_nil h items"
    by (auto simp add: all_no_nil_def split: option.splits)
  from event_body_returns[OF a, of parse a w] obtain e' w1 where
    b: "event_body parse a (h a) w = Inr (e', w1)" and e': "e' = h a \<or> e' = with_self (h a)"
    by blast
  have "all_no_nil (h(a := e')) items"
    using rest e' a
    by (auto simp add: all_no_nil_def list_all_iff no_nil_with_self split: option.splits)
  from Cons.IH[OF this, of w1] b p show ?case
    by (simp add: item_body_event fun_upd_def)
qed

lemma Chunkify_returns:
  assumes "all_no_nil h items"
  shows "\<exists>cs h'. Chunkify parse date items h = Inr (cs, h')"
proof -
  from items_loop_returns[OF assms] obtain h' w' where
    "items_loop parse items (h, \<lparr>lo = date + startOfDay * Hour, i = 0, chunks = [], intersect = None\<rparr>) =
     Inr (h', w')"
    by blast
  then show ?thesis by (simp add: Chunkify_def Let_def)
qed

section \<open>The claims\<close>

subsection \<open>C1: coverage\<close>




subsection \<open>C2: contiguity\<close>

text \<open>
  C2. Whatever the events are, in the sequence that \<open>Chunkify\<close> returns every chunk but
  the last ends exactly where the next one starts: \<open>chunks[i].end == chunks[i+1].start\<close>
  for every \<open>i\<close> with \<open>0 \<le> i < len(chunks) - 1\<close>. No order of the events is assumed.
\<close>

theorem Chunkify_contiguous:
  assumes "Chunkify parse date items h = Inr (cs, h')"
  shows "\<forall>k. k + 1 < length cs \<longrightarrow> end' (cs ! k) = start (cs ! (k + 1))"
proof -
  from assms have "contiguous cs"
  proof (cases rule: Chunkify_cases)
    case empty
    then show ?thesis by (simp add: contiguous_def)
  next
    case (pass w)
    then show ?thesis
      by (auto simp add: pass_inv_def contiguous_snoc tail_ok_def)
  qed
  then show ?thesis by (simp add: contiguous_def)
qed

theorem Chunkify_contiguous_witness:
  "Chunkify clock 0 [Some 3, Some 1, Some 2] test_store = Inr (overlap_chunks, test_store) \<and>
   end' (overlap_chunks ! 0) = start (overlap_chunks ! 1) \<and>
   end' (overlap_chunks ! 1) = start (overlap_chunks ! 2) \<and>
   end' (overlap_chunks ! 2) = start (overlap_chunks ! 3) \<and>
   end' (overlap_chunks ! 3) = start (overlap_chunks ! 4)"
proof -
  note r = overlap_run
  have n: "length overlap_chunks = 5" by (simp add: overlap_chunks_def)
  note c = Chunkify_contiguous [OF r, THEN spec]
  have "end' (overlap_chunks ! 0) = start (overlap_chunks ! 1)" using c[of 0] n by (simp add: eval_nat_numeral)
  moreover have "end' (overlap_chunks ! 1) = start (overlap_chunks ! 2)" using c[of 1] n by (simp add: eval_nat_numeral)
  moreover have "end' (overlap_chunks ! 2) = start (overlap_chunks ! 3)" using c[of 2] n by (simp add: eval_nat_numeral)
  moreover have "end' (overlap_chunks ! 3) = start (overlap_chunks ! 4)" using c[of 3] n by (simp add: eval_nat_numeral)
  ultimately show ?thesis using overlap_run by blast
qed

subsection \<open>C3: overlap resolution and label inheritance\<close>



subsection \<open>C4: the events after the call\<close>




subsection \<open>C5: declined events\<close>




subsection \<open>C6: no chunk of negative duration\<close>

text \<open>
  C6. If the timed events of \<open>items\<close> come by ascending start and none of them starts
  after it ends, then every chunk that \<open>Chunkify\<close> returns has \<open>start \<le> end\<close>, the
  truncated ones included. (The instants are the ones \<open>roundToNearest15\<close> parses;
  rounding keeps their order.)
\<close>

theorem Chunkify_durations:
  assumes "Chunkify parse date items h = Inr (cs, h')"
    and "sorted (map fst (event_times parse h items))"
    and "list_all (\<lambda>(s, e). s \<le> e) (event_times parse h items)"
  shows "list_all (\<lambda>c. start c \<le> end' c) cs"
  using assms(1)
proof (cases rule: Chunkify_cases)
  case empty
  with nine_to_five[of date] show ?thesis by simp
next
  case (pass w)
  let ?w0 = "\<lparr>lo = date + startOfDay * Hour, i = 0, chunks = [], intersect = None\<rparr>"
  define B where "B = (case event_times parse h items of [] \<Rightarrow> 0 | x # xs \<Rightarrow> fst x)"
  have "\<forall>t \<in> set (map fst (event_times parse h items)). B \<le> t"
    using assms(2) by (cases "event_times parse h items") (auto simp add: B_def)
  moreover have "dur_inv (Round B (15 * Minute)) ?w0"
    by (simp add: dur_inv_def intersect_ok_def)
  ultimately obtain b where "dur_inv b w"
    using items_loop_durations[OF pass(2) assms(2,3)] by blast
  with pass(3) show ?thesis by (simp add: dur_inv_def)
qed

theorem Chunkify_durations_witness:
  "Chunkify clock 0 [Some 3, Some 1, Some 2] test_store = Inr (overlap_chunks, test_store) \<and>
   event_times clock test_store [Some 3, Some 1, Some 2] =
     [(8 * Hour, 17 * Hour), (10 * Hour, 12 * Hour), (13 * Hour, 14 * Hour)] \<and>
   list_all (\<lambda>c. start c \<le> end' c) overlap_chunks"
proof -
  note r = overlap_run
  have t: "event_times clock test_store [Some 3, Some 1, Some 2] =
      [(8 * Hour, 17 * Hour), (10 * Hour, 12 * Hour), (13 * Hour, 14 * Hour)]"
    by code_simp
  have h: "Hour = 3600000000000" by (simp add: Hour_def Minute_def Second_def)
  have s1: "sorted (map fst (event_times clock test_store [Some 3, Some 1, Some 2]))"
    unfolding t by (simp add: h)
  have s2: "list_all (\<lambda>(s, e). s \<le> e) (event_times clock test_store [Some 3, Some 1, Some 2])"
    unfolding t by (simp add: h)
  have "list_all (\<lambda>c. start c \<le> end' c) overlap_chunks"
    by (rule Chunkify_durations [OF r s1 s2])
  with overlap_run t show ?thesis by simp
qed

subsection \<open>C7: empty and fully filtered input\<close>




subsection \<open>C8: the synthesized attendee\<close>

text \<open>
  C8. Let the event at address \<open>a\<close> of \<open>items\<close> have timed start and end, no attendees
  and a self creator. Then \<open>Chunkify\<close> returns the same chunks, or panics alike, as on
  the same input with that event given the single attendee
  \<open>{Self: true, ResponseStatus: rs}\<close>, for any response status \<open>rs\<close> other than
  \<open>declined\<close>, such as \<open>accepted\<close>; and when it returns, one of the chunks is the chunk
  of that event, with its summary as notes and its rounded start as start.
\<close>

theorem Chunkify_self_created:
  assumes "Some a \<in> set items" and "timed (h a)"
    and "Attendees (h a) = []" and "self_created (h a)"
    and "rs \<noteq> ''declined''"
  shows "map_sum id fst (Chunkify parse date items h) =
         map_sum id fst
           (Chunkify parse date items
              (h(a := (h a)\<lparr>Attendees := [Some \<lparr>Self = True, ResponseStatus = rs\<rparr>]\<rparr>))) \<and>
         (\<forall>cs h'. Chunkify parse date items h = Inr (cs, h') \<longrightarrow>
            (\<exists>c \<in> set cs. Event c = Some a \<and> notes' c = Summary (h a) \<and>
                          roundToNearest15 parse (Start (h a)) = Inr (start c)))"
proof (intro conjI allI impI)
  have "sim a rs h (h(a := (h a)\<lparr>Attendees := [Some \<lparr>Self = True, ResponseStatus = rs\<rparr>]\<rparr>))"
    using assms(3,4) by (simp add: sim_def twin_def)
  then show "map_sum id fst (Chunkify parse date items h) =
         map_sum id fst
           (Chunkify parse date items
              (h(a := (h a)\<lparr>Attendees := [Some \<lparr>Self = True, ResponseStatus = rs\<rparr>]\<rparr>)))"
    using assms(5) by (rule Chunkify_sim)
next
  fix cs h'
  assume r: "Chunkify parse date items h = Inr (cs, h')"
  from assms(2) obtain sd where sd: "Start (h a) = Some sd"
    by (auto simp add: timed_def split: option.splits)
  define s where "s = Round (parsed parse sd) (15 * Minute)"
  have rs: "roundToNearest15 parse (Start (h a)) = Inr s"
    by (simp add: sd s_def roundToNearest15_def)
  from assms(1) obtain xs ys where items: "items = xs @ Some a # ys"
    by (auto dest: split_list)
  from r show "\<exists>c \<in> set cs. Event c = Some a \<and> notes' c = Summary (h a) \<and>
                 roundToNearest15 parse (Start (h a)) = Inr (start c)"
  proof (cases rule: Chunkify_cases)
    case empty
    with assms(1) show ?thesis by simp
  next
    case (pass w)
    let ?w0 = "\<lparr>lo = date + startOfDay * Hour, i = 0, chunks = [], intersect = None\<rparr>"
    from pass(2) obtain h1 w1 h2 w2 where
      l1: "items_loop parse xs (h, ?w0) = Inr (h1, w1)"
      and b: "item_body parse (Some a) (h1, w1) = Inr (h2, w2)"
      and l2: "items_loop parse ys (h2, w2) = Inr (h', w)"
      by (auto simp add: items items_loop_append split: sum.splits)
    have "pass_inv w1" using pass_inv_init l1 by (rule items_loop_pass_inv)
    then have ok1: "intersect_ok w1" by (simp add: pass_inv_def)
    have h1a: "h1 a = h a \<or> h1 a = with_self (h a)"
      using items_loop_store[OF l1, of a] by (simp split: if_splits)
    then have e1: "timed (h1 a)" "relevant (h1 a)" "Summary (h1 a) = Summary (h a)"
      "Start (h1 a) = Start (h a)"
      "Attendees (h1 a) = [] \<or> Attendees (h1 a) = [Some \<lparr>Self = True, ResponseStatus = ''''\<rparr>]"
      using assms(2,3,4) by (auto simp add: relevant_def[of "h a"])
    from item_body_includes[OF b e1(1,2,5) ok1] rs e1(3,4)
    have "intersect_ok w2 \<and> has_chunk a (Summary (h a)) s (chunks w2)" by simp
    from this l2 have "intersect_ok w \<and> has_chunk a (Summary (h a)) s (chunks w)"
      by (rule items_loop_preserves
            [where P = "\<lambda>w. intersect_ok w \<and> has_chunk a (Summary (h a)) s (chunks w)", rotated 1])
         (rule has_chunk_append_event)
    with pass(3) rs show ?thesis
      by (auto simp add: has_chunk_def list_ex_iff)
  qed
qed

theorem Chunkify_self_created_witness:
  "map_sum id fst (Chunkify clock 0 [Some 6] test_store) = Inr own_chunks \<and>
   map_sum id fst
     (Chunkify clock 0 [Some 6]
        (test_store(6 := (test_store 6)\<lparr>Attendees := [Some \<lparr>Self = True, ResponseStatus = ''accepted''\<rparr>]\<rparr>))) =
     Inr own_chunks \<and>
   Event (own_chunks ! 1) = Some 6 \<and>
   notes' (own_chunks ! 1) = Summary (test_store 6)"
proof -
  have own: "Some 6 \<in> set [Some (6::nat)]" "timed (test_store 6)" "Attendees (test_store 6) = []"
    "self_created (test_store 6)" "''accepted'' \<noteq> ''declined''"
    by (simp_all add: test_store_at ownEvent_def timed_def self_created_def)
  from Chunkify_self_created
         [where a = 6 and items = "[Some 6]" and h = test_store and rs = "''accepted''"
            and parse = clock and date = 0, OF own]
       own_run_chunks
  have "map_sum id fst
     (Chunkify clock 0 [Some 6]
        (test_store(6 := (test_store 6)\<lparr>Attendees := [Some \<lparr>Self = True, ResponseStatus = ''accepted''\<rparr>]\<rparr>))) =
     Inr own_chunks"
    by simp
  with own_run_chunks show ?thesis
    by (simp add: own_chunks_def test_store_at ownEvent_def)
qed

subsection \<open>C9: rounding\<close>

text \<open>
  C9. \<open>roundToNearest15\<close> sends a boundary to the nearest multiple of 15 minutes, at most
  7 minutes and 30 seconds away; an instant exactly 7 minutes 30 seconds past a quarter
  hour goes up to the next quarter hour and an instant 7 minutes 29 seconds past it goes
  down to that quarter hour. Quarter hours are counted from the zero time, as
  \<open>Time.Round\<close> does; \<open>q\<close> is any integer.
\<close>

theorem roundToNearest15_nearest_quarter:
  assumes "parse (DateTime dt) = Some t"
  shows "\<exists>r. roundToNearest15 parse (Some dt) = Inr r \<and>
           15 * Minute dvd r \<and> 2 * \<bar>r - t\<bar> \<le> 15 * Minute \<and>
           (t = q * (15 * Minute) + (7 * Minute + 30 * Second) \<longrightarrow> r = (q + 1) * (15 * Minute)) \<and>
           (t = q * (15 * Minute) + (7 * Minute + 29 * Second) \<longrightarrow> r = q * (15 * Minute))"
proof -
  let ?d = "15 * Minute"
  have d: "0 < ?d" by (rule quarter_pos)
  have rt: "roundToNearest15 parse (Some dt) = Inr (Round t ?d)"
    using assms by (simp add: roundToNearest15_def parsed_def)
  have dv: "?d dvd Round t ?d"
    by (simp add: Round_eq_div[OF d])
  have m: "0 \<le> t mod ?d" "t mod ?d < ?d" using d by simp_all
  have near: "2 * \<bar>Round t ?d - t\<bar> \<le> ?d"
    using d m by (simp add: Round_def Let_def)
  have up: "Round (q * ?d + (7 * Minute + 30 * Second)) ?d = (q + 1) * ?d"
    by (simp add: Round_def Let_def Minute_def Second_def algebra_simps)
  have down: "Round (q * ?d + (7 * Minute + 29 * Second)) ?d = q * ?d"
    by (simp add: Round_def Let_def Minute_def Second_def algebra_simps)
  show ?thesis using rt dv near up down by auto
qed

theorem roundToNearest15_nearest_quarter_witness:
  "roundToNearest15 clock (Some \<lparr>DateTime = ''0001-01-01T10:07:30Z''\<rparr>) = Inr (10 * Hour + 15 * Minute) \<and>
   roundToNearest15 clock (Some \<lparr>DateTime = ''0001-01-01T10:07:29Z''\<rparr>) = Inr (10 * Hour)"
proof -
  have h1: "clock (DateTime \<lparr>DateTime = ''0001-01-01T10:07:30Z''\<rparr>) = Some (10 * Hour + 7 * Minute + 30 * Second)"
    by (simp add: clock_def)
  have h2: "clock (DateTime \<lparr>DateTime = ''0001-01-01T10:07:29Z''\<rparr>) = Some (10 * Hour + 7 * Minute + 29 * Second)"
    by (simp add: clock_def)
  show ?thesis
    using roundToNearest15_nearest_quarter
            [of clock "\<lparr>DateTime = ''0001-01-01T10:07:30Z''\<rparr>" "10 * Hour + 7 * Minute + 30 * Second" 40, OF h1]
          roundToNearest15_nearest_quarter
            [of clock "\<lparr>DateTime = ''0001-01-01T10:07:29Z''\<rparr>" "10 * Hour + 7 * Minute + 29 * Second" 40, OF h2]
    by (auto simp add: Hour_def Minute_def Second_def)
qed

subsection \<open>C10: the intersect pointer is never cleared\<close>



end
